theory Spec2Isabelle
  imports Complex_Main
begin

section \<open>The editor buffer of vim2vid\<close>

text \<open>
  A shallow embedding of \<^verbatim>\<open>VimVideoGenerator\<close> (vim2vid.py). The generator keeps
  the document as a list of strings with a cursor; \<^verbatim>\<open>_type_character\<close> and
  \<^verbatim>\<open>_backspace\<close> edit it in place. Here the object is a record that every
  operation takes and returns. A Python exception is a value of \<open>error\<close>.

  \<open>cursor_row\<close> and \<open>cursor_col\<close> are natural numbers: the source sets them to 0
  and only ever subtracts one behind a \<^verbatim>\<open>> 0\<close> test. Slices \<^verbatim>\<open>line[:k]\<close> and
  \<^verbatim>\<open>line[k:]\<close> with \<open>k \<ge> 0\<close> are \<open>take k\<close> and \<open>drop k\<close>, which clamp as
  Python does. \<open>written\<close> counts the frames handed to the video writer.
\<close>

datatype error = IndexError | ZeroDivisionError

definition newline :: char where
  "newline = CHR 0x0A"

record vim =
  lines :: "string list"
  cursor_row :: nat
  cursor_col :: nat
  written :: nat

text \<open>The fields as \<^verbatim>\<open>__init__\<close> sets them.\<close>

definition initial :: vim where
  "initial = \<lparr>lines = [[]], cursor_row = 0, cursor_col = 0, written = 0\<rparr>"

text \<open>
  \<^verbatim>\<open>list.insert(i, x)\<close> and \<^verbatim>\<open>del xs[i]\<close>, for an index inside the list.
\<close>

definition list_insert :: "nat \<Rightarrow> 'a \<Rightarrow> 'a list \<Rightarrow> 'a list" where
  "list_insert i x xs = take i xs @ [x] @ drop i xs"

definition list_delete :: "nat \<Rightarrow> 'a list \<Rightarrow> 'a list" where
  "list_delete i xs = take i xs @ drop (Suc i) xs"

text \<open>
  \<^verbatim>\<open>_type_character\<close>: a row at or past the end first appends an empty line; the
  read \<^verbatim>\<open>self.lines[self.cursor_row]\<close> then raises when the row is still out of
  range.
\<close>

definition type_character :: "char \<Rightarrow> vim \<Rightarrow> error + vim" where
  "type_character c s =
     (let ls = (if cursor_row s \<ge> length (lines s) then lines s @ [[]] else lines s) in
      if cursor_row s \<ge> length ls then Inl IndexError
      else
        let line = ls ! cursor_row s in
        if c = newline then
          let rest = drop (cursor_col s) line;
              ls1 = ls[cursor_row s := take (cursor_col s) line];
              row1 = cursor_row s + 1
          in Inr (s\<lparr>lines := list_insert row1 rest ls1, cursor_row := row1, cursor_col := 0\<rparr>)
        else
          Inr (s\<lparr>lines := ls[cursor_row s :=
                       take (cursor_col s) line @ [c] @ drop (cursor_col s) line],
                  cursor_col := cursor_col s + 1\<rparr>))"

text \<open>\<^verbatim>\<open>_backspace\<close>: every list read is guarded as Python guards it.\<close>

definition backspace :: "vim \<Rightarrow> error + vim" where
  "backspace s =
     (if cursor_col s > 0 then
        (if cursor_row s \<ge> length (lines s) then Inl IndexError
         else
           let line = lines s ! cursor_row s in
           Inr (s\<lparr>lines := (lines s)[cursor_row s :=
                        take (cursor_col s - 1) line @ drop (cursor_col s) line],
                   cursor_col := cursor_col s - 1\<rparr>))
      else if cursor_row s > 0 then
        (if cursor_row s - 1 \<ge> length (lines s) then Inl IndexError
         else if cursor_row s \<ge> length (lines s) then Inl IndexError
         else
           let prev_line = lines s ! (cursor_row s - 1);
               current_line = lines s ! cursor_row s;
               ls1 = (lines s)[cursor_row s - 1 := prev_line @ current_line]
           in Inr (s\<lparr>lines := list_delete (cursor_row s) ls1,
                      cursor_row := cursor_row s - 1,
                      cursor_col := length prev_line\<rparr>))
      else Inr s)"

text \<open>
  The three edit operations of the buffer and a run of them: \<open>InsertChar\<close> and
  \<open>InsertNewline\<close> are both \<^verbatim>\<open>_type_character\<close>, which tells them apart by the
  character. A run stops at the first exception.
\<close>

datatype edit = InsertChar char | InsertNewline | Backspace

fun apply_edit :: "edit \<Rightarrow> vim \<Rightarrow> error + vim" where
  "apply_edit (InsertChar c) s = type_character c s"
| "apply_edit InsertNewline s = type_character newline s"
| "apply_edit Backspace s = backspace s"

fun run_edits :: "edit list \<Rightarrow> vim \<Rightarrow> error + vim" where
  "run_edits [] s = Inr s"
| "run_edits (e # es) s =
     (case apply_edit e s of Inl err \<Rightarrow> Inl err | Inr s1 \<Rightarrow> run_edits es s1)"

text \<open>The contract of the buffer: a line exists, the row names one, the column is inside it.\<close>

definition buffer_ok :: "vim \<Rightarrow> bool" where
  "buffer_ok s \<longleftrightarrow>
     lines s \<noteq> [] \<and> cursor_row s < length (lines s) \<and>
     cursor_col s \<le> length (lines s ! cursor_row s)"

section \<open>Configuration\<close>

text \<open>
  The fields of \<^verbatim>\<open>VideoConfig\<close> that the modelled functions read. A value of
  \<^verbatim>\<open>special_sequences\<close> is a two-element list \<^verbatim>\<open>[typo, correct]\<close> or a plain
  string; the dictionary is a list of pairs in its iteration order.
\<close>

datatype sequence = Pair_seq string string | Plain_seq string

record config =
  height :: int
  fps :: int
  columns :: int
  typing_speed_base :: real
  correction_pause :: real
  highlight_patterns :: "string list"
  special_sequences :: "(string \<times> sequence) list"

section \<open>Frames\<close>

text \<open>
  \<^verbatim>\<open>int(x)\<close> of a float truncates towards zero. \<^verbatim>\<open>_add_frame\<close> renders the
  current state once and writes that frame \<^verbatim>\<open>max(1, int(duration * fps))\<close> times.
  Rendering reads the buffer and writes only \<^verbatim>\<open>scroll_offset\<close>, which
  \<open>draw_content\<close> below threads on its own; here the frame is counted. Durations are real
  numbers.
\<close>

definition py_int :: "real \<Rightarrow> int" where
  "py_int x = (if x \<ge> 0 then \<lfloor>x\<rfloor> else \<lceil>x\<rceil>)"

definition num_frames :: "int \<Rightarrow> real \<Rightarrow> int" where
  "num_frames f duration = max 1 (py_int (duration * of_int f))"

definition add_frame :: "config \<Rightarrow> real \<Rightarrow> vim \<Rightarrow> vim" where
  "add_frame cfg duration s = s\<lparr>written := written s + nat (num_frames (fps cfg) duration)\<rparr>"

text \<open>The tick count as the specification words it, with rounding to the nearest integer.\<close>

definition spec_ticks :: "int \<Rightarrow> real \<Rightarrow> int" where
  "spec_ticks f duration = max 1 (round (duration * of_int f))"

section \<open>Line wrapping\<close>

text \<open>
  The width is \<^verbatim>\<open>columns - 1\<close>, an integer that may be zero or negative, so the
  slices \<^verbatim>\<open>word[:width]\<close> and \<^verbatim>\<open>word[width:]\<close> follow Python for a negative
  bound as well: it counts from the end.
\<close>

definition slice_to :: "int \<Rightarrow> 'a list \<Rightarrow> 'a list" where
  "slice_to k xs = (if k \<ge> 0 then take (nat k) xs else take (length xs - nat (- k)) xs)"

definition slice_from :: "int \<Rightarrow> 'a list \<Rightarrow> 'a list" where
  "slice_from k xs = (if k \<ge> 0 then drop (nat k) xs else drop (length xs - nat (- k)) xs)"

text \<open>\<^verbatim>\<open>text.split(' ')\<close>: one word per separating space, empty words kept.\<close>

fun split_sp :: "string \<Rightarrow> string list" where
  "split_sp [] = [[]]"
| "split_sp (c # cs) =
     (if c = CHR '' '' then [] # split_sp cs
      else (case split_sp cs of [] \<Rightarrow> [[c]] | w # ws \<Rightarrow> (c # w) # ws))"

text \<open>
  The inner loop \<^verbatim>\<open>while len(word) > width\<close> of \<^verbatim>\<open>_wrap_line\<close>. It does not end
  when the width is not positive; \<open>None\<close> is the loop that never returns.
\<close>

partial_function (option) split_long_word ::
  "int \<Rightarrow> string \<Rightarrow> string list \<Rightarrow> (string list \<times> string) option" where
  "split_long_word width word wrapped =
     (if int (length word) > width
      then split_long_word width (slice_from width word) (wrapped @ [slice_to width word])
      else Some (wrapped, word))"

declare split_long_word.simps [code]

text \<open>The loop \<^verbatim>\<open>for word in words\<close>, on \<^verbatim>\<open>wrapped\<close> and \<^verbatim>\<open>current_line\<close>.\<close>

fun wrap_words ::
  "int \<Rightarrow> string list \<Rightarrow> string list \<Rightarrow> string \<Rightarrow> (string list \<times> string) option" where
  "wrap_words width [] wrapped current_line = Some (wrapped, current_line)"
| "wrap_words width (word # words) wrapped current_line =
     (if int (length current_line) + int (length word) + 1 \<le> width then
        (if current_line \<noteq> []
         then wrap_words width words wrapped (current_line @ '' '' @ word)
         else wrap_words width words wrapped word)
      else
        (let wrapped1 = (if current_line \<noteq> [] then wrapped @ [current_line] else wrapped) in
         if int (length word) > width then
           (case split_long_word width word wrapped1 of
              None \<Rightarrow> None
            | Some (wrapped2, word2) \<Rightarrow> wrap_words width words wrapped2 word2)
         else wrap_words width words wrapped1 word))"

definition wrap_line :: "string \<Rightarrow> int \<Rightarrow> string list option" where
  "wrap_line text width =
     (if int (length text) \<le> width then Some [text]
      else
        (case wrap_words width (split_sp text) [] [] of
           None \<Rightarrow> None
         | Some (wrapped, current_line) \<Rightarrow>
             (let wrapped1 = (if current_line \<noteq> [] then wrapped @ [current_line] else wrapped)
              in Some (if wrapped1 \<noteq> [] then wrapped1 else [[]]))))"

text \<open>
  The display lines of one logical line, as the loop of \<^verbatim>\<open>_draw_content\<close> chooses
  them: the line itself when it fits, its wrapping otherwise.
\<close>

definition display_of_line :: "int \<Rightarrow> string \<Rightarrow> string list option" where
  "display_of_line cols line =
     (if int (length line) \<le> cols - 1 then Some [line] else wrap_line line (cols - 1))"

section \<open>Layout: cursor mapping and scrolling\<close>

text \<open>
  The search \<^verbatim>\<open>for j, wrapped_line in enumerate(wrapped)\<close> with its \<^verbatim>\<open>break\<close>;
  \<open>None\<close> is the loop running to its \<^verbatim>\<open>else\<close>. Each passed segment adds its length
  and one to \<^verbatim>\<open>char_count\<close>.
\<close>

fun find_cursor :: "string list \<Rightarrow> nat \<Rightarrow> nat \<Rightarrow> nat \<Rightarrow> (nat \<times> int) option" where
  "find_cursor [] ccol char_count j = None"
| "find_cursor (wrapped_line # rest) ccol char_count j =
     (if char_count + length wrapped_line \<ge> ccol
      then Some (j, int ccol - int char_count)
      else find_cursor rest ccol (char_count + length wrapped_line + 1) (Suc j))"

text \<open>The value of \<^verbatim>\<open>char_count\<close> when the search reaches segment \<open>j\<close>.\<close>

fun seg_offset :: "string list \<Rightarrow> nat \<Rightarrow> nat" where
  "seg_offset segs 0 = 0"
| "seg_offset [] (Suc j) = 0"
| "seg_offset (w # segs) (Suc j) = length w + 1 + seg_offset segs j"

text \<open>
  The loop over \<^verbatim>\<open>self.lines\<close>: the accumulator is \<^verbatim>\<open>display_lines\<close>,
  \<^verbatim>\<open>cursor_display_row\<close> and \<^verbatim>\<open>cursor_display_col\<close>.
\<close>

fun layout_lines ::
  "int \<Rightarrow> nat \<Rightarrow> nat \<Rightarrow> nat \<Rightarrow> string list \<Rightarrow> string list \<times> nat \<times> int \<Rightarrow>
   (error + string list \<times> nat \<times> int) option" where
  "layout_lines cols crow ccol i [] acc = Some (Inr acc)"
| "layout_lines cols crow ccol i (line # rest) (dl, cdr, cdc) =
     (if int (length line) \<le> cols - 1 then
        layout_lines cols crow ccol (Suc i) rest
          (if i = crow then (dl @ [line], length dl, int ccol) else (dl @ [line], cdr, cdc))
      else
        (case wrap_line line (cols - 1) of
           None \<Rightarrow> None
         | Some wrapped \<Rightarrow>
             if i = crow then
               (case find_cursor wrapped ccol 0 0 of
                  Some (j, c) \<Rightarrow>
                    layout_lines cols crow ccol (Suc i) rest (dl @ wrapped, length dl + j, c)
                | None \<Rightarrow>
                    if wrapped = [] then Some (Inl IndexError)
                    else layout_lines cols crow ccol (Suc i) rest
                           (dl @ wrapped, length dl + length wrapped - 1,
                            int (length (last wrapped))))
             else layout_lines cols crow ccol (Suc i) rest (dl @ wrapped, cdr, cdc)))"

text \<open>
  \<^verbatim>\<open>(height - 100) // (char_height + 4)\<close>: floor division, which raises on a zero
  divisor. \<open>char_height\<close> comes from the font.
\<close>

definition visible_rows :: "int \<Rightarrow> int \<Rightarrow> error + int" where
  "visible_rows h char_height =
     (if char_height + 4 = 0 then Inl ZeroDivisionError
      else Inr ((h - 100) div (char_height + 4)))"

definition auto_scroll :: "int \<Rightarrow> int \<Rightarrow> int \<Rightarrow> int" where
  "auto_scroll cdr scroll_offset vr =
     (if cdr \<ge> scroll_offset + vr then cdr - vr + 1
      else if cdr < scroll_offset then cdr
      else scroll_offset)"

section \<open>Drawing and highlighting\<close>

datatype mode = NORMAL | INSERT

datatype color = color_text | color_highlight | color_bg

text \<open>
  \<^verbatim>\<open>line.startswith(pattern)\<close>, and \<^verbatim>\<open>line.find(pattern)\<close> with \<open>None\<close> for -1;
  \<^verbatim>\<open>pattern in line\<close> holds exactly when the search finds an index.
\<close>

definition startswith :: "'a list \<Rightarrow> 'a list \<Rightarrow> bool" where
  "startswith line pattern \<longleftrightarrow> take (length pattern) line = pattern"

fun str_find :: "'a list \<Rightarrow> 'a list \<Rightarrow> nat option" where
  "str_find [] pattern = (if pattern = [] then Some 0 else None)"
| "str_find (x # xs) pattern =
     (if startswith (x # xs) pattern then Some 0 else map_option Suc (str_find xs pattern))"

fun get_char_color :: "string list \<Rightarrow> string \<Rightarrow> nat \<Rightarrow> color" where
  "get_char_color [] line col = color_text"
| "get_char_color (pattern # patterns) line col =
     (case str_find line pattern of
        Some start \<Rightarrow>
          if start \<le> col \<and> col < start + length pattern then color_highlight
          else get_char_color patterns line col
      | None \<Rightarrow> get_char_color patterns line col)"

text \<open>
  A drawn row is the filler \<^verbatim>\<open>~\<close>, or the characters of a display line with their fill
  colours; the flag says that the cursor rectangle was drawn past the end of the line.
  The character under the cursor is drawn in \<^verbatim>\<open>color_bg\<close> on the cursor rectangle.
\<close>

datatype row = Tilde | Cells "(char \<times> color) list" bool

definition draw_line_plain :: "string list \<Rightarrow> string \<Rightarrow> row" where
  "draw_line_plain patterns line =
     Cells (map (\<lambda>col. (line ! col, get_char_color patterns line col)) [0..<length line]) False"

definition draw_line_with_cursor :: "string list \<Rightarrow> string \<Rightarrow> int \<Rightarrow> row" where
  "draw_line_with_cursor patterns line ccol =
     Cells (map (\<lambda>col. if int col = ccol then (line ! col, color_bg)
                        else (line ! col, get_char_color patterns line col)) [0..<length line])
           (ccol \<ge> int (length line))"

text \<open>\<^verbatim>\<open>xs[i]\<close> for an integer index: a negative one counts from the end.\<close>

definition index :: "'a list \<Rightarrow> int \<Rightarrow> error + 'a" where
  "index xs i =
     (if 0 \<le> i \<and> i < int (length xs) then Inr (xs ! nat i)
      else if i < 0 \<and> - i \<le> int (length xs) then Inr (xs ! nat (int (length xs) + i))
      else Inl IndexError)"

definition draw_row ::
  "string list \<Rightarrow> mode \<Rightarrow> string list \<Rightarrow> nat \<Rightarrow> int \<Rightarrow> int \<Rightarrow> nat \<Rightarrow> error + row" where
  "draw_row patterns m dl cdr cdc scroll_offset screen_row =
     (let display_idx = int screen_row + scroll_offset in
      if display_idx < int (length dl) then
        (case index dl display_idx of
           Inl e \<Rightarrow> Inl e
         | Inr line \<Rightarrow>
             if m = INSERT \<and> display_idx = int cdr
             then Inr (draw_line_with_cursor patterns line cdc)
             else Inr (draw_line_plain patterns line))
      else Inr Tilde)"

fun draw_rows :: "(nat \<Rightarrow> error + row) \<Rightarrow> nat list \<Rightarrow> error + row list" where
  "draw_rows f [] = Inr []"
| "draw_rows f (r # rs) =
     (case f r of
        Inl e \<Rightarrow> Inl e
      | Inr x \<Rightarrow> (case draw_rows f rs of Inl e \<Rightarrow> Inl e | Inr xs \<Rightarrow> Inr (x # xs)))"

text \<open>
  \<^verbatim>\<open>_draw_content\<close>: what it computes and what it leaves in \<^verbatim>\<open>scroll_offset\<close>.
\<close>

record frame =
  display_lines :: "string list"
  cursor_display_row :: nat
  cursor_display_col :: int
  scroll_offset :: int
  rows :: "row list"

definition draw_content ::
  "config \<Rightarrow> int \<Rightarrow> mode \<Rightarrow> int \<Rightarrow> vim \<Rightarrow> (error + frame) option" where
  "draw_content cfg char_height m scroll s =
     (case layout_lines (columns cfg) (cursor_row s) (cursor_col s) 0 (lines s)
             ([], 0, int (cursor_col s)) of
        None \<Rightarrow> None
      | Some (Inl e) \<Rightarrow> Some (Inl e)
      | Some (Inr (dl, cdr, cdc)) \<Rightarrow>
          (case visible_rows (height cfg) char_height of
             Inl e \<Rightarrow> Some (Inl e)
           | Inr vr \<Rightarrow>
               (let scroll1 = auto_scroll (int cdr) scroll vr in
                case draw_rows (draw_row (highlight_patterns cfg) m dl cdr cdc scroll1)
                       [0..<nat vr] of
                  Inl e \<Rightarrow> Some (Inl e)
                | Inr rs \<Rightarrow>
                    Some (Inr \<lparr>display_lines = dl, cursor_display_row = cdr,
                               cursor_display_col = cdc, scroll_offset = scroll1,
                               rows = rs\<rparr>))))"

section \<open>Special sequences\<close>

text \<open>\<^verbatim>\<open>os.path.commonprefix\<close> of two strings: their longest common prefix.\<close>

fun commonprefix :: "'a list \<Rightarrow> 'a list \<Rightarrow> 'a list" where
  "commonprefix (x # xs) (y # ys) = (if x = y then x # commonprefix xs ys else [])"
| "commonprefix xs ys = []"

text \<open>
  The two typing loops of \<^verbatim>\<open>_type_special_sequence\<close> (a character, then a frame held
  for \<open>d\<close>) and its backspace loop (a backspace, then a frame held for 0.06).
\<close>

fun type_each :: "config \<Rightarrow> real \<Rightarrow> string \<Rightarrow> vim \<Rightarrow> error + vim" where
  "type_each cfg d [] s = Inr s"
| "type_each cfg d (c # cs) s =
     (case type_character c s of
        Inl e \<Rightarrow> Inl e
      | Inr s1 \<Rightarrow> type_each cfg d cs (add_frame cfg d s1))"

fun backspace_times :: "config \<Rightarrow> nat \<Rightarrow> vim \<Rightarrow> error + vim" where
  "backspace_times cfg 0 s = Inr s"
| "backspace_times cfg (Suc n) s =
     (case backspace s of
        Inl e \<Rightarrow> Inl e
      | Inr s1 \<Rightarrow> backspace_times cfg n (add_frame cfg (6 / 100) s1))"

definition type_special_sequence :: "config \<Rightarrow> string \<Rightarrow> string \<Rightarrow> vim \<Rightarrow> error + vim" where
  "type_special_sequence cfg typo correct s =
     (case type_each cfg (typing_speed_base cfg) typo s of
        Inl e \<Rightarrow> Inl e
      | Inr s1 \<Rightarrow>
          (case backspace_times cfg (length typo - length (commonprefix typo correct))
                  (add_frame cfg (correction_pause cfg) s1) of
             Inl e \<Rightarrow> Inl e
           | Inr s2 \<Rightarrow>
               type_each cfg (typing_speed_base cfg)
                 (drop (length (commonprefix typo correct)) correct) s2))"

text \<open>
  The search \<^verbatim>\<open>for pattern, sequence in special_sequences.items()\<close> of
  \<^verbatim>\<open>_type_text\<close>, which stops at the first key the rest of the line starts with.
\<close>

fun find_special :: "(string \<times> sequence) list \<Rightarrow> string \<Rightarrow> (string \<times> sequence) option" where
  "find_special [] rest = None"
| "find_special ((pattern, sq) # others) rest =
     (if startswith rest pattern then Some (pattern, sq) else find_special others rest)"

text \<open>
  One turn of the loop \<^verbatim>\<open>while char_idx < len(line)\<close> when a special sequence
  matches: the new state and the new \<^verbatim>\<open>char_idx\<close>. \<open>None\<close> is
  \<^verbatim>\<open>special_handled = False\<close>, where the loop goes on to type a regular character.
\<close>

definition type_text_special ::
  "config \<Rightarrow> string \<Rightarrow> nat \<Rightarrow> vim \<Rightarrow> (error + vim \<times> nat) option" where
  "type_text_special cfg line char_idx s =
     (case find_special (special_sequences cfg) (drop char_idx line) of
        None \<Rightarrow> None
      | Some (pattern, sq) \<Rightarrow>
          (let (typo, correct) =
                 (case sq of Pair_seq t c \<Rightarrow> (t, c) | Plain_seq t \<Rightarrow> (t, pattern))
           in Some (case type_special_sequence cfg typo correct s of
                      Inl e \<Rightarrow> Inl e
                    | Inr s1 \<Rightarrow> Inr (s1, char_idx + length pattern))))"

section \<open>Notions used in the statements\<close>

text \<open>Every segment of a list of display lines is at most \<open>width\<close> long.\<close>

definition fits :: "int \<Rightarrow> string list \<Rightarrow> bool" where
  "fits width segs \<longleftrightarrow> (\<forall>seg \<in> set segs. int (length seg) \<le> width)"

text \<open>
  The display lines of several logical lines in a row, as \<^verbatim>\<open>_draw_content\<close> collects
  them in \<^verbatim>\<open>display_lines\<close>.
\<close>

fun display_all :: "int \<Rightarrow> string list \<Rightarrow> string list option" where
  "display_all cols [] = Some []"
| "display_all cols (line # rest) =
     (case display_of_line cols line of
        None \<Rightarrow> None
      | Some segs \<Rightarrow>
          (case display_all cols rest of None \<Rightarrow> None | Some others \<Rightarrow> Some (segs @ others)))"

text \<open>
  The segment index and the display column that the body of the loop in
  \<^verbatim>\<open>_draw_content\<close> assigns for the cursor's line, relative to the first segment of
  that line (the branch on \<^verbatim>\<open>i == self.cursor_row\<close> of \<open>layout_lines\<close>).
\<close>

definition cursor_in_segments :: "int \<Rightarrow> nat \<Rightarrow> string \<Rightarrow> string list \<Rightarrow> nat \<times> int" where
  "cursor_in_segments cols ccol line segs =
     (if int (length line) \<le> cols - 1 then (0, int ccol)
      else (case find_cursor segs ccol 0 0 of
              Some (j, c) \<Rightarrow> (j, c)
            | None \<Rightarrow> (length segs - 1, int (length (last segs)))))"

text \<open>
  Typing a string into the buffer with \<^verbatim>\<open>_type_character\<close> alone, one character
  after the other and with no frame in between: what the buffer holds when a text has been
  typed with no mistake.
\<close>

fun type_string :: "string \<Rightarrow> vim \<Rightarrow> error + vim" where
  "type_string [] s = Inr s"
| "type_string (c # cs) s =
     (case type_character c s of Inl e \<Rightarrow> Inl e | Inr s1 \<Rightarrow> type_string cs s1)"

text \<open>The text of the buffer and its cursor, without the count of frames written.\<close>

definition text_of :: "vim \<Rightarrow> string list \<times> nat \<times> nat" where
  "text_of s = (lines s, cursor_row s, cursor_col s)"

text \<open>The positions of a line at which a pattern occurs, in increasing order.\<close>

definition occurrences :: "'a list \<Rightarrow> 'a list \<Rightarrow> nat list" where
  "occurrences line pattern =
     filter (\<lambda>p. startswith (drop p line) pattern) [0..<Suc (length line)]"

section \<open>A sample configuration\<close>

text \<open>A configuration and a buffer on which the theorems below are instantiated.\<close>

definition sample_config :: config where
  "sample_config =
     \<lparr>height = 720, fps = 30, columns = 80, typing_speed_base = 1 / 10,
      correction_pause = 1 / 2, highlight_patterns = [''TODO''],
      special_sequences = [(''teh'', Pair_seq ''teh'' ''the''), (''the'', Plain_seq ''hte'')]\<rparr>"

definition sample_buffer :: vim where
  "sample_buffer = \<lparr>lines = [''ab''], cursor_row = 0, cursor_col = 1, written = 0\<rparr>"

text \<open>A narrow window of ten columns and three rows, and a buffer whose second line wraps.\<close>

definition narrow_config :: config where
  "narrow_config = sample_config\<lparr>height := 160, columns := 10\<rparr>"

definition long_buffer :: vim where
  "long_buffer =
     \<lparr>lines = [''ab'', ''fix TODO now''], cursor_row = 1, cursor_col = 12, written = 0\<rparr>"

definition long_frame :: frame where
  "long_frame =
     \<lparr>display_lines = [''ab'', ''fix TODO'', ''now''], cursor_display_row = 2,
      cursor_display_col = 3, scroll_offset = 0,
      rows =
        [Cells [(CHR ''a'', color_text), (CHR ''b'', color_text)] False,
         Cells [(CHR ''f'', color_text), (CHR ''i'', color_text), (CHR ''x'', color_text),
                (CHR '' '', color_text), (CHR ''T'', color_highlight),
                (CHR ''O'', color_highlight), (CHR ''D'', color_highlight),
                (CHR ''O'', color_highlight)] False,
         Cells [(CHR ''n'', color_text), (CHR ''o'', color_text), (CHR ''w'', color_text)]
               True]\<rparr>"

text \<open>A buffer in the middle of typing a line, after its first six characters \<open>I see \<close>.\<close>

definition typing_buffer :: vim where
  "typing_buffer = \<lparr>lines = [''I see ''], cursor_row = 0, cursor_col = 6, written = 0\<rparr>"

text \<open>
  The narrow window with a highlight pattern of two words, and a buffer whose only line
  holds the pattern once.
\<close>

definition split_config :: config where
  "split_config = narrow_config\<lparr>highlight_patterns := [''TODO now'']\<rparr>"

definition todo_buffer :: vim where
  "todo_buffer = \<lparr>lines = [''fix TODO now''], cursor_row = 0, cursor_col = 0, written = 0\<rparr>"

section \<open>Properties of the buffer\<close>

lemma type_character_ok:
  assumes "buffer_ok s"
  shows "\<exists>s1. type_character c s = Inr s1 \<and> buffer_ok s1"
  using assms
  by (auto simp: type_character_def buffer_ok_def list_insert_def Let_def nth_append min_def)

lemma backspace_ok:
  assumes "buffer_ok s"
  shows "\<exists>s1. backspace s = Inr s1 \<and> buffer_ok s1"
  using assms
  by (auto simp: backspace_def buffer_ok_def list_delete_def Let_def nth_append min_def)

lemma run_edits_ok:
  "buffer_ok s \<Longrightarrow> \<exists>s1. run_edits es s = Inr s1 \<and> buffer_ok s1"
proof (induction es arbitrary: s)
  case Nil
  then show ?case by simp
next
  case (Cons e es)
  have "\<exists>s1. apply_edit e s = Inr s1 \<and> buffer_ok s1"
    using Cons.prems by (cases e) (simp_all add: type_character_ok backspace_ok)
  then obtain s1 where s1: "apply_edit e s = Inr s1" "buffer_ok s1" by blast
  from Cons.IH [OF s1(2)] s1(1) show ?case by simp
qed

lemma buffer_ok_initial: "buffer_ok initial"
  by (simp add: buffer_ok_def initial_def)

lemma buffer_ok_sample: "buffer_ok sample_buffer"
  by (simp add: buffer_ok_def sample_buffer_def)

text \<open>
  Claim C1. Starting from the initial state (one empty line, cursor at (0,0)), every finite
  sequence of insertChar, insertNewline and backspace operations runs without an exception
  and ends in a state that has at least one line, whose cursor row is a valid line index and
  whose cursor column does not exceed the length of the line at that row. Every prefix of a
  sequence is a sequence, so the same holds after each single operation. The theorem does
  not need the characters of insertChar to differ from the newline.
\<close>

theorem edits_keep_buffer_contract:
  "\<exists>s. run_edits es initial = Inr s \<and> lines s \<noteq> [] \<and>
        cursor_row s < length (lines s) \<and>
        cursor_col s \<le> length (lines s ! cursor_row s)"
  using run_edits_ok [OF buffer_ok_initial, of es] by (simp add: buffer_ok_def)

theorem edits_keep_buffer_contract_witness:
  "\<exists>s. run_edits [InsertChar CHR ''a'', InsertNewline, InsertChar CHR ''b'', Backspace,
                    Backspace, Backspace, Backspace] initial = Inr s \<and>
        lines s \<noteq> [] \<and> cursor_row s < length (lines s) \<and>
        cursor_col s \<le> length (lines s ! cursor_row s)"
  using edits_keep_buffer_contract
    [of "[InsertChar CHR ''a'', InsertNewline, InsertChar CHR ''b'', Backspace,
          Backspace, Backspace, Backspace]"] .

lemma length_list_insert: "length (list_insert i x xs) = Suc (length xs)"
  by (simp add: list_insert_def)

lemma nth_list_insert_before: "r < i \<Longrightarrow> i \<le> length xs \<Longrightarrow> list_insert i x xs ! r = xs ! r"
  by (simp add: list_insert_def nth_append)

lemma nth_list_insert_at: "i \<le> length xs \<Longrightarrow> list_insert i x xs ! i = x"
  by (simp add: list_insert_def nth_append)

lemma delete_insert_update:
  assumes r: "r < length xs"
  shows "list_delete (Suc r) ((list_insert (Suc r) y xs)[r := z]) = xs[r := z]"
proof -
  have pre: "(take (Suc r) xs)[r := z] = take r xs @ [z]"
    using r by (simp add: take_Suc_conv_app_nth list_update_append)
  have a: "(list_insert (Suc r) y xs)[r := z] = (take r xs @ [z]) @ y # drop (Suc r) xs"
    using r pre by (simp add: list_insert_def list_update_append)
  have len: "length (take r xs @ [z]) = Suc r"
    using r by simp
  have b: "list_delete (Suc r) ((take r xs @ [z]) @ y # drop (Suc r) xs)
      = (take r xs @ [z]) @ drop (Suc r) xs"
    unfolding list_delete_def using len by simp
  have c: "(take r xs @ [z]) @ drop (Suc r) xs = xs[r := z]"
    using r by (simp add: upd_conv_take_nth_drop)
  show ?thesis
    unfolding a b c ..
qed

lemma newline_then_backspace:
  assumes "buffer_ok s"
  shows "\<exists>s1. type_character newline s = Inr s1 \<and> backspace s1 = Inr s"
proof -
  let ?r = "cursor_row s" and ?c = "cursor_col s" and ?ls = "lines s"
  let ?line = "?ls ! ?r"
  let ?ls1 = "?ls[?r := take ?c ?line]"
  let ?s1 = "s\<lparr>lines := list_insert (Suc ?r) (drop ?c ?line) ?ls1,
               cursor_row := Suc ?r, cursor_col := 0\<rparr>"
  from assms have r: "?r < length ?ls" and c: "?c \<le> length ?line"
    by (simp_all add: buffer_ok_def)
  have typed: "type_character newline s = Inr ?s1"
    using r by (simp add: type_character_def Let_def)
  have prev: "lines ?s1 ! ?r = take ?c ?line"
    using r by (simp add: nth_list_insert_before)
  have cur: "lines ?s1 ! Suc ?r = drop ?c ?line"
    using r by (simp add: nth_list_insert_at)
  have len: "length (lines ?s1) = Suc (length ?ls)"
    by (simp add: length_list_insert)
  have del: "list_delete (Suc ?r) ((lines ?s1)[?r := take ?c ?line @ drop ?c ?line]) = ?ls"
    using r by (simp add: delete_insert_update)
  have bs: "backspace ?s1 =
      Inr (?s1\<lparr>lines := list_delete (Suc ?r)
                          ((lines ?s1)[?r := lines ?s1 ! ?r @ lines ?s1 ! Suc ?r]),
                cursor_row := ?r, cursor_col := length (lines ?s1 ! ?r)\<rparr>)"
    unfolding backspace_def Let_def using r len by simp
  have "backspace ?s1 = Inr s"
    unfolding bs prev cur del using c by (simp add: min_def)
  with typed show ?thesis by blast
qed

text \<open>
  Claim C9. In every state that satisfies the buffer contract, insertNewline followed at
  once by backspace gives back exactly the state before the insertNewline: the same lines
  and the same cursor.
\<close>

theorem newline_backspace_roundtrip:
  assumes "buffer_ok s"
  shows "\<exists>s1. type_character newline s = Inr s1 \<and> backspace s1 = Inr s"
  using newline_then_backspace [OF assms] .

theorem newline_backspace_roundtrip_witness:
  "buffer_ok sample_buffer \<and>
   (\<exists>s1. type_character newline sample_buffer = Inr s1 \<and> backspace s1 = Inr sample_buffer)"
  using newline_backspace_roundtrip [OF buffer_ok_sample] buffer_ok_sample by blast

text \<open>
  Claim C8, as stated: an edit attempted with the cursor row at or past the line count
  signals an error instead of repairing the state. It fails for \<^verbatim>\<open>_type_character\<close>
  when the row equals the line count: the guard at the head of the function appends an
  empty line and the edit goes through. Here a buffer of one line with the cursor on row 1
  accepts a character and ends with two lines.
\<close>

theorem type_character_repairs_counterexample:
  "type_character CHR ''x'' \<lparr>lines = [''ab''], cursor_row = 1, cursor_col = 0, written = 0\<rparr>
     = Inr \<lparr>lines = [''ab'', ''x''], cursor_row = 1, cursor_col = 1, written = 0\<rparr>"
  by (simp add: type_character_def newline_def)

text \<open>
  Claim C8, amended. With the cursor row at or past the line count,
  \<^verbatim>\<open>_type_character\<close> raises IndexError when the row is strictly greater than the line
  count; when the row equals the line count it appends an empty line and performs the edit
  on it. \<^verbatim>\<open>_backspace\<close> in such a state raises IndexError, except at row 0 and column 0
  (of a document without lines), where it does nothing.
\<close>

theorem edit_past_last_line:
  assumes "length (lines s) \<le> cursor_row s"
  shows "type_character c s =
           (if length (lines s) < cursor_row s then Inl IndexError
            else if c = newline then
              Inr (s\<lparr>lines := lines s @ [[], []], cursor_row := cursor_row s + 1,
                      cursor_col := 0\<rparr>)
            else Inr (s\<lparr>lines := lines s @ [[c]], cursor_col := cursor_col s + 1\<rparr>))
         \<and> backspace s =
           (if cursor_col s = 0 \<and> cursor_row s = 0 then Inr s else Inl IndexError)"
proof -
  have "type_character c s =
           (if length (lines s) < cursor_row s then Inl IndexError
            else if c = newline then
              Inr (s\<lparr>lines := lines s @ [[], []], cursor_row := cursor_row s + 1,
                      cursor_col := 0\<rparr>)
            else Inr (s\<lparr>lines := lines s @ [[c]], cursor_col := cursor_col s + 1\<rparr>))"
  proof (cases "length (lines s) < cursor_row s")
    case True
    then show ?thesis by (simp add: type_character_def Let_def)
  next
    case False
    with assms have eq: "cursor_row s = length (lines s)" by simp
    show ?thesis by (simp add: type_character_def Let_def list_insert_def eq)
  qed
  moreover have "backspace s =
           (if cursor_col s = 0 \<and> cursor_row s = 0 then Inr s else Inl IndexError)"
    using assms by (auto simp: backspace_def Let_def)
  ultimately show ?thesis by blast
qed

theorem edit_past_last_line_witness:
  "type_character CHR ''a'' \<lparr>lines = [[]], cursor_row = 1, cursor_col = 0, written = 0\<rparr>
     = Inr \<lparr>lines = [[], ''a''], cursor_row = 1, cursor_col = 1, written = 0\<rparr> \<and>
   type_character CHR ''a'' \<lparr>lines = [[]], cursor_row = 2, cursor_col = 0, written = 0\<rparr>
     = Inl IndexError \<and>
   backspace \<lparr>lines = [[]], cursor_row = 1, cursor_col = 0, written = 0\<rparr> = Inl IndexError"
  using edit_past_last_line
          [of "\<lparr>lines = [[]], cursor_row = 1, cursor_col = 0, written = 0\<rparr>" "CHR ''a''"]
        edit_past_last_line
          [of "\<lparr>lines = [[]], cursor_row = 2, cursor_col = 0, written = 0\<rparr>" "CHR ''a''"]
  by (simp add: newline_def)

section \<open>Properties of the frame count\<close>




section \<open>Properties of wrapping\<close>

lemma fits_simps:
  "fits width []" "fits width (segs @ [seg]) \<longleftrightarrow> fits width segs \<and> int (length seg) \<le> width"
  by (auto simp: fits_def)

lemma split_long_word_returns:
  assumes w: "1 \<le> width"
  shows "fits width wrapped \<Longrightarrow>
         \<exists>w2 r. split_long_word width word wrapped = Some (w2, r) \<and> fits width w2 \<and>
                 int (length r) \<le> width"
proof (induction "length word" arbitrary: word wrapped rule: less_induct)
  case less
  show ?case
  proof (cases "int (length word) > width")
    case False
    then show ?thesis
      using less.prems by (subst split_long_word.simps) simp
  next
    case True
    have shorter: "length (slice_from width word) < length word"
      using w True by (simp add: slice_from_def)
    have chunk: "fits width (wrapped @ [slice_to width word])"
      using w less.prems by (simp add: fits_simps slice_to_def)
    from less.hyps [OF shorter chunk] obtain w2 r where
      "split_long_word width (slice_from width word) (wrapped @ [slice_to width word]) = Some (w2, r)"
      "fits width w2" "int (length r) \<le> width"
      by blast
    then show ?thesis
      using True by (subst split_long_word.simps) simp
  qed
qed

lemma wrap_words_returns:
  assumes w: "1 \<le> width"
  shows "fits width wrapped \<Longrightarrow> int (length current_line) \<le> width \<Longrightarrow>
         \<exists>w2 c2. wrap_words width words wrapped current_line = Some (w2, c2) \<and>
                  fits width w2 \<and> int (length c2) \<le> width"
proof (induction words arbitrary: wrapped current_line)
  case Nil
  then show ?case by simp
next
  case (Cons word words)
  show ?case
  proof (cases "int (length current_line) + int (length word) + 1 \<le> width")
    case True
    then have "int (length (current_line @ '' '' @ word)) \<le> width"
      and "int (length word) \<le> width"
      by simp_all
    then show ?thesis
      using True Cons.IH [OF Cons.prems(1)] by simp
  next
    case False
    let ?wrapped1 = "if current_line \<noteq> [] then wrapped @ [current_line] else wrapped"
    have f1: "fits width ?wrapped1"
      using Cons.prems by (simp add: fits_simps)
    show ?thesis
    proof (cases "int (length word) > width")
      case long: True
      from split_long_word_returns [OF w f1, of word] obtain w2 r where
        sp: "split_long_word width word ?wrapped1 = Some (w2, r)"
          "fits width w2" "int (length r) \<le> width"
        by blast
      from Cons.IH [OF sp(2) sp(3)] show ?thesis
        using False long sp(1) by (simp add: Let_def)
    next
      case short: False
      then have "int (length word) \<le> width" by simp
      from Cons.IH [OF f1 this] show ?thesis
        using False short by (simp add: Let_def)
    qed
  qed
qed

lemma wrap_line_returns:
  assumes w: "1 \<le> width"
  shows "\<exists>segs. wrap_line text width = Some segs \<and> fits width segs"
proof (cases "int (length text) \<le> width")
  case True
  then show ?thesis by (simp add: wrap_line_def fits_def)
next
  case False
  from wrap_words_returns [OF w, of "[]" "[]" "split_sp text"] obtain w2 c2 where
    "wrap_words width (split_sp text) [] [] = Some (w2, c2)" "fits width w2"
    "int (length c2) \<le> width"
    using w by (auto simp: fits_def)
  then show ?thesis
    using False w by (auto simp: wrap_line_def fits_def Let_def)
qed

lemma wrap_line_not_empty: "wrap_line text width = Some segs \<Longrightarrow> segs \<noteq> []"
  by (auto simp: wrap_line_def Let_def split: if_splits option.splits prod.splits)

lemma display_of_line_wrap: "display_of_line cols line = wrap_line line (cols - 1)"
  by (simp add: display_of_line_def wrap_line_def)

text \<open>
  Claim C2. For every logical line and every width \<open>columns - 1 \<ge> 1\<close>, wrapping returns,
  it is a function of the line and of \<open>columns\<close> alone (exactly one list of display lines
  is its result), and every display line it produces is at most \<open>columns - 1\<close> long. The
  statement covers \<^verbatim>\<open>_wrap_line\<close> itself and the choice \<^verbatim>\<open>_draw_content\<close> makes
  between the line as it is and its wrapping.
\<close>

theorem wrapping_bounded:
  assumes "1 \<le> cols - 1"
  shows "\<exists>!segs. display_of_line cols line = Some segs \<and>
                  wrap_line line (cols - 1) = Some segs \<and>
                  (\<forall>seg \<in> set segs. int (length seg) \<le> cols - 1)"
  using wrap_line_returns [OF assms, of line]
  by (auto simp: display_of_line_wrap fits_def)

theorem wrapping_bounded_witness:
  "(1::int) \<le> 10 - 1 \<and>
   (\<exists>!segs. display_of_line 10 ''fix TODO now'' = Some segs \<and>
             wrap_line ''fix TODO now'' (10 - 1) = Some segs \<and>
             (\<forall>seg \<in> set segs. int (length seg) \<le> 10 - 1))"
  using wrapping_bounded [of 10 "''fix TODO now''"] by simp

section \<open>Properties of the layout\<close>

lemma display_of_line_not_empty: "display_of_line cols line = Some segs \<Longrightarrow> segs \<noteq> []"
  by (auto simp: display_of_line_def wrap_line_not_empty split: if_splits)

lemma layout_lines_other:
  "crow < i \<Longrightarrow>
   layout_lines cols crow ccol i ls (dl, cdr, cdc) =
     (case display_all cols ls of
        None \<Rightarrow> None
      | Some d \<Rightarrow> Some (Inr (dl @ d, cdr, cdc)))"
proof (induction ls arbitrary: i dl)
  case Nil
  then show ?case by simp
next
  case (Cons line rest)
  from Cons.prems have ne: "i \<noteq> crow" and lt: "crow < Suc i" by simp_all
  show ?case
  proof (cases "int (length line) \<le> cols - 1")
    case True
    then show ?thesis
      using ne Cons.IH [OF lt, of "dl @ [line]"]
      by (simp add: display_of_line_def split: option.splits)
  next
    case False
    then show ?thesis
      using ne Cons.IH [OF lt]
      by (simp add: display_of_line_def split: option.splits)
  qed
qed

lemma layout_lines_at_cursor:
  "layout_lines cols crow ccol crow (line # rest) (dl, cdr, cdc) =
     (case display_of_line cols line of
        None \<Rightarrow> None
      | Some segs \<Rightarrow>
          (case display_all cols rest of
             None \<Rightarrow> None
           | Some post \<Rightarrow>
               Some (Inr (dl @ segs @ post,
                          length dl + fst (cursor_in_segments cols ccol line segs),
                          snd (cursor_in_segments cols ccol line segs)))))"
proof (cases "int (length line) \<le> cols - 1")
  case True
  then show ?thesis
    using layout_lines_other [of crow "Suc crow" cols ccol rest "dl @ [line]"]
    by (simp add: display_of_line_def cursor_in_segments_def split: option.splits)
next
  case False
  show ?thesis
  proof (cases "wrap_line line (cols - 1)")
    case None
    then show ?thesis using False by (simp add: display_of_line_def)
  next
    case (Some wrapped)
    then have ne: "wrapped \<noteq> []" by (rule wrap_line_not_empty)
    then have eq: "length dl + length wrapped - Suc 0 = length dl + (length wrapped - Suc 0)"
      by (cases wrapped) simp_all
    show ?thesis
      using False Some ne layout_lines_other [of crow "Suc crow" cols ccol rest "dl @ wrapped"]
      by (simp add: display_of_line_def cursor_in_segments_def eq split: option.splits)
  qed
qed

lemma layout_lines_before_cursor:
  "i \<le> crow \<Longrightarrow> crow < i + length ls \<Longrightarrow>
   layout_lines cols crow ccol i ls (dl, cdr, cdc) =
     (case display_all cols (take (crow - i) ls) of
        None \<Rightarrow> None
      | Some pre \<Rightarrow>
          (case display_of_line cols (ls ! (crow - i)) of
             None \<Rightarrow> None
           | Some segs \<Rightarrow>
               (case display_all cols (drop (Suc (crow - i)) ls) of
                  None \<Rightarrow> None
                | Some post \<Rightarrow>
                    Some (Inr (dl @ pre @ segs @ post,
                               length dl + length pre +
                                 fst (cursor_in_segments cols ccol (ls ! (crow - i)) segs),
                               snd (cursor_in_segments cols ccol (ls ! (crow - i)) segs))))))"
proof (induction ls arbitrary: i dl cdr cdc)
  case Nil
  then show ?case by simp
next
  case (Cons line rest)
  show ?case
  proof (cases "i = crow")
    case True
    then show ?thesis
      by (simp del: layout_lines.simps add: layout_lines_at_cursor split: option.splits)
  next
    case False
    with Cons.prems have le: "Suc i \<le> crow" and lt: "crow < Suc i + length rest"
      by simp_all
    from le obtain k where k: "crow - i = Suc k" "crow - Suc i = k"
      by (cases "crow - i") simp_all
    show ?thesis
    proof (cases "int (length line) \<le> cols - 1")
      case True
      then show ?thesis
        using False k Cons.IH [OF le lt, of "dl @ [line]" cdr cdc]
        by (simp add: display_of_line_def split: option.splits)
    next
      case nofit: False
      then show ?thesis
        using False k Cons.IH [OF le lt]
        by (simp add: display_of_line_def split: option.splits)
    qed
  qed
qed

lemma find_cursor_Some:
  "cc \<le> ccol \<Longrightarrow> find_cursor segs ccol cc j0 = Some (j, c) \<Longrightarrow>
   \<exists>k. k < length segs \<and> j = j0 + k \<and> c = int ccol - int (cc + seg_offset segs k) \<and>
       cc + seg_offset segs k \<le> ccol \<and> ccol \<le> cc + seg_offset segs k + length (segs ! k) \<and>
       (\<forall>i<k. cc + seg_offset segs i + length (segs ! i) < ccol)"
proof (induction segs arbitrary: cc j0)
  case Nil
  then show ?case by simp
next
  case (Cons seg rest)
  show ?case
  proof (cases "ccol \<le> cc + length seg")
    case True
    with Cons.prems have "j = j0" "c = int ccol - int cc" by simp_all
    with True Cons.prems(1) show ?thesis
      by (intro exI [of _ 0]) simp
  next
    case False
    then have le: "cc + length seg + 1 \<le> ccol" by simp
    from False Cons.prems(2)
    have "find_cursor rest ccol (cc + length seg + 1) (Suc j0) = Some (j, c)" by simp
    from Cons.IH [OF le this] obtain k where k:
      "k < length rest" "j = Suc j0 + k"
      "c = int ccol - int (cc + length seg + 1 + seg_offset rest k)"
      "cc + length seg + 1 + seg_offset rest k \<le> ccol"
      "ccol \<le> cc + length seg + 1 + seg_offset rest k + length (rest ! k)"
      "\<forall>i<k. cc + length seg + 1 + seg_offset rest i + length (rest ! i) < ccol"
      by blast
    have "\<forall>i<Suc k. cc + seg_offset (seg # rest) i + length ((seg # rest) ! i) < ccol"
    proof (intro allI impI)
      fix i assume "i < Suc k"
      then show "cc + seg_offset (seg # rest) i + length ((seg # rest) ! i) < ccol"
        using k(6) False by (cases i) (simp_all add: add.assoc)
    qed
    with k show ?thesis
      by (intro exI [of _ "Suc k"]) (simp add: add.assoc)
  qed
qed

lemma find_cursor_None:
  "find_cursor segs ccol cc j0 = None \<Longrightarrow>
   \<forall>i<length segs. cc + seg_offset segs i + length (segs ! i) < ccol"
proof (induction segs arbitrary: cc j0)
  case Nil
  then show ?case by simp
next
  case (Cons seg rest)
  from Cons.prems have far: "\<not> ccol \<le> cc + length seg"
    and rec: "find_cursor rest ccol (cc + length seg + 1) (Suc j0) = None"
    by (simp_all split: if_splits)
  show ?case
  proof (intro allI impI)
    fix i assume "i < length (seg # rest)"
    then show "cc + seg_offset (seg # rest) i + length ((seg # rest) ! i) < ccol"
      using Cons.IH [OF rec] far by (cases i) (simp_all add: add.assoc)
  qed
qed

lemma layout_lines_returns:
  assumes w: "1 \<le> cols - 1"
  shows "\<exists>lay. layout_lines cols crow ccol i ls acc = Some (Inr lay)"
proof (induction ls arbitrary: i acc)
  case Nil
  show ?case by (rule exI [of _ acc]) simp
next
  case (Cons line rest)
  obtain dl cdr cdc where acc: "acc = (dl, cdr, cdc)" by (cases acc) auto
  show ?case
  proof (cases "int (length line) \<le> cols - 1")
    case True
    then show ?thesis
      using Cons.IH [of "Suc i"] unfolding acc by simp
  next
    case False
    from wrap_line_returns [OF w, of line] obtain wrapped where
      wr: "wrap_line line (cols - 1) = Some wrapped" by blast
    then have ne: "wrapped \<noteq> []" by (rule wrap_line_not_empty)
    show ?thesis
      using False wr ne Cons.IH [of "Suc i"] unfolding acc
      by (auto split: option.splits)
  qed
qed

lemma draw_rows_returns:
  "(\<And>r. r \<in> set rs \<Longrightarrow> \<exists>x. f r = Inr x) \<Longrightarrow> \<exists>xs. draw_rows f rs = Inr xs"
proof (induction rs)
  case Nil
  then show ?case by simp
next
  case (Cons r rs)
  from Cons.prems [of r] obtain x where x: "f r = Inr x" by auto
  from Cons.IH Cons.prems obtain xs where "draw_rows f rs = Inr xs" by auto
  with x show ?case by simp
qed

lemma draw_row_returns:
  "0 \<le> scroll \<Longrightarrow> \<exists>x. draw_row patterns m dl cdr cdc scroll screen_row = Inr x"
  by (simp add: draw_row_def Let_def index_def)

lemma auto_scroll_window:
  "1 \<le> vr \<Longrightarrow> auto_scroll cdr scroll vr \<le> cdr \<and> cdr < auto_scroll cdr scroll vr + vr"
  by (simp add: auto_scroll_def)

lemma auto_scroll_nonneg:
  "0 \<le> scroll \<Longrightarrow> 0 \<le> cdr \<Longrightarrow> 0 \<le> auto_scroll cdr scroll vr"
  by (simp add: auto_scroll_def)

lemma draw_content_layout:
  assumes "draw_content cfg char_height m scroll s = Some (Inr fr)"
  shows "\<exists>vr. layout_lines (columns cfg) (cursor_row s) (cursor_col s) 0 (lines s)
                 ([], 0, int (cursor_col s))
               = Some (Inr (display_lines fr, cursor_display_row fr, cursor_display_col fr)) \<and>
              visible_rows (height cfg) char_height = Inr vr \<and>
              scroll_offset fr = auto_scroll (int (cursor_display_row fr)) scroll vr"
  using assms
  by (auto simp: draw_content_def Let_def split: option.splits sum.splits prod.splits)

lemma draw_content_returns:
  assumes lay: "layout_lines (columns cfg) (cursor_row s) (cursor_col s) 0 (lines s)
                  ([], 0, int (cursor_col s)) = Some (Inr (dl, cdr, cdc))"
    and vis: "visible_rows (height cfg) char_height = Inr vr"
    and scroll: "0 \<le> scroll"
  shows "\<exists>fr. draw_content cfg char_height m scroll s = Some (Inr fr)"
proof -
  have "0 \<le> auto_scroll (int cdr) scroll vr"
    using scroll by (simp add: auto_scroll_nonneg)
  then have "\<exists>rs. draw_rows (draw_row (highlight_patterns cfg) m dl cdr cdc
                              (auto_scroll (int cdr) scroll vr)) [0..<nat vr] = Inr rs"
    by (intro draw_rows_returns draw_row_returns)
  then show ?thesis
    using lay vis by (auto simp: draw_content_def Let_def)
qed

text \<open>
  Claim C3. Let \<open>visibleRows = (height - 100) div (char_height + 4)\<close> be at least 1 and the
  scroll offset be non-negative beforehand. Then after the auto-scroll update of any layout
  computation the cursor's display row lies in the window:
  \<open>scrollOffset \<le> cursorDisplayRow < scrollOffset + visibleRows\<close>. The layout computation
  does return whenever the window is at least two columns wide.
\<close>

theorem cursor_in_viewport:
  assumes vis: "visible_rows (height cfg) char_height = Inr vr"
    and rows: "1 \<le> vr" and scroll: "0 \<le> scroll"
  shows "vr = (height cfg - 100) div (char_height + 4) \<and>
         (\<forall>fr. draw_content cfg char_height m scroll s = Some (Inr fr) \<longrightarrow>
               scroll_offset fr \<le> int (cursor_display_row fr) \<and>
               int (cursor_display_row fr) < scroll_offset fr + vr) \<and>
         (2 \<le> columns cfg \<longrightarrow> (\<exists>fr. draw_content cfg char_height m scroll s = Some (Inr fr)))"
proof (intro conjI allI impI)
  show "vr = (height cfg - 100) div (char_height + 4)"
    using vis by (simp add: visible_rows_def split: if_splits)
next
  fix fr assume "draw_content cfg char_height m scroll s = Some (Inr fr)"
  from draw_content_layout [OF this] vis
  have so: "scroll_offset fr = auto_scroll (int (cursor_display_row fr)) scroll vr"
    by auto
  show "scroll_offset fr \<le> int (cursor_display_row fr)"
    unfolding so using auto_scroll_window [OF rows] by blast
  show "int (cursor_display_row fr) < scroll_offset fr + vr"
    unfolding so using auto_scroll_window [OF rows] by blast
next
  assume "2 \<le> columns cfg"
  then have "1 \<le> columns cfg - 1" by simp
  from layout_lines_returns [OF this] obtain lay where
    "layout_lines (columns cfg) (cursor_row s) (cursor_col s) 0 (lines s)
       ([], 0, int (cursor_col s)) = Some (Inr lay)"
    by blast
  then show "\<exists>fr. draw_content cfg char_height m scroll s = Some (Inr fr)"
    using draw_content_returns [OF _ vis scroll] by (cases lay) auto
qed

lemma sample_visible_rows: "visible_rows (height narrow_config) 16 = Inr 3"
  by (simp add: visible_rows_def narrow_config_def sample_config_def)

theorem cursor_in_viewport_witness:
  "visible_rows (height narrow_config) 16 = Inr 3 \<and> (1::int) \<le> 3 \<and> (0::int) \<le> 7 \<and>
   (3::int) = (height narrow_config - 100) div (16 + 4) \<and>
   (\<exists>fr. draw_content narrow_config 16 INSERT 7 long_buffer = Some (Inr fr) \<and>
         scroll_offset fr \<le> int (cursor_display_row fr) \<and>
         int (cursor_display_row fr) < scroll_offset fr + 3)"
proof -
  have cols: "2 \<le> columns narrow_config"
    by (simp add: narrow_config_def sample_config_def)
  from cursor_in_viewport [OF sample_visible_rows, of 7 INSERT long_buffer] cols
    sample_visible_rows
  show ?thesis by auto
qed

lemma cursor_in_segments_fit:
  assumes "int (length line) \<le> cols - 1"
  shows "display_of_line cols line = Some [line]"
    and "cursor_in_segments cols ccol line segs = (0, int ccol)"
  using assms by (simp_all add: display_of_line_def cursor_in_segments_def)

lemma cursor_in_segments_found:
  assumes nofit: "\<not> int (length line) \<le> cols - 1"
    and ex: "\<exists>k<length segs. ccol \<le> seg_offset segs k + length (segs ! k)"
  shows "\<exists>j. cursor_in_segments cols ccol line segs = (j, int ccol - int (seg_offset segs j)) \<and>
             j < length segs \<and> seg_offset segs j \<le> ccol \<and>
             ccol \<le> seg_offset segs j + length (segs ! j) \<and>
             (\<forall>i<j. seg_offset segs i + length (segs ! i) < ccol)"
proof (cases "find_cursor segs ccol 0 0")
  case None
  from find_cursor_None [OF None] ex show ?thesis by force
next
  case (Some jc)
  obtain j c where jc: "jc = (j, c)" by (cases jc) auto
  from find_cursor_Some [of 0 ccol segs 0 j c] Some jc
  have "j < length segs \<and> c = int ccol - int (seg_offset segs j) \<and>
        seg_offset segs j \<le> ccol \<and> ccol \<le> seg_offset segs j + length (segs ! j) \<and>
        (\<forall>i<j. seg_offset segs i + length (segs ! i) < ccol)"
    by auto
  then show ?thesis
    using nofit Some jc by (auto simp: cursor_in_segments_def)
qed

lemma cursor_in_segments_end:
  assumes nofit: "\<not> int (length line) \<le> cols - 1"
    and nex: "\<not> (\<exists>k<length segs. ccol \<le> seg_offset segs k + length (segs ! k))"
    and ne: "segs \<noteq> []"
  shows "cursor_in_segments cols ccol line segs =
           (length segs - 1, int (length (segs ! (length segs - 1))))"
proof (cases "find_cursor segs ccol 0 0")
  case None
  then show ?thesis
    using nofit ne by (simp add: cursor_in_segments_def last_conv_nth)
next
  case (Some jc)
  obtain j c where jc: "jc = (j, c)" by (cases jc) auto
  from find_cursor_Some [of 0 ccol segs 0 j c] Some jc
  have "j < length segs \<and> ccol \<le> seg_offset segs j + length (segs ! j)" by auto
  with nex show ?thesis by blast
qed


lemma buffer_ok_long: "buffer_ok long_buffer"
  by (simp add: buffer_ok_def long_buffer_def)

lemma long_buffer_drawn: "draw_content narrow_config 16 INSERT 0 long_buffer = Some (Inr long_frame)"
  by code_simp


section \<open>Properties of special sequences\<close>

lemma text_of_written [simp]: "text_of (s\<lparr>written := w\<rparr>) = text_of s"
  by (simp add: text_of_def)

lemma text_of_add_frame [simp]: "text_of (add_frame cfg d s) = text_of s"
  by (simp add: add_frame_def)

lemma text_of_eq: "text_of t = text_of s \<Longrightarrow> t = s\<lparr>written := written t\<rparr>"
  by (cases s, cases t) (simp add: text_of_def)

lemma type_character_written:
  "type_character c s = Inr s1 \<Longrightarrow> type_character c (s\<lparr>written := w\<rparr>) = Inr (s1\<lparr>written := w\<rparr>)"
  by (auto simp: type_character_def Let_def split: if_splits)

lemma backspace_written:
  "backspace s = Inr s1 \<Longrightarrow> backspace (s\<lparr>written := w\<rparr>) = Inr (s1\<lparr>written := w\<rparr>)"
  by (auto simp: backspace_def Let_def split: if_splits)

lemma type_character_text:
  assumes "text_of t = text_of s" and "type_character c s = Inr s1"
  shows "\<exists>t1. type_character c t = Inr t1 \<and> text_of t1 = text_of s1"
proof -
  from text_of_eq [OF assms(1)] have t: "t = s\<lparr>written := written t\<rparr>" .
  from type_character_written [OF assms(2), of "written t"] t
  show ?thesis by (metis text_of_written)
qed

lemma backspace_text:
  assumes "text_of t = text_of s" and "backspace s = Inr s1"
  shows "\<exists>t1. backspace t = Inr t1 \<and> text_of t1 = text_of s1"
proof -
  from text_of_eq [OF assms(1)] have t: "t = s\<lparr>written := written t\<rparr>" .
  from backspace_written [OF assms(2), of "written t"] t
  show ?thesis by (metis text_of_written)
qed

lemma char_then_backspace:
  assumes ok: "buffer_ok s" and nl: "c \<noteq> newline"
  shows "\<exists>s1. type_character c s = Inr s1 \<and> backspace s1 = Inr s"
proof -
  let ?r = "cursor_row s" and ?c = "cursor_col s"
  let ?line = "lines s ! ?r"
  let ?s1 = "s\<lparr>lines := (lines s)[?r := take ?c ?line @ [c] @ drop ?c ?line],
               cursor_col := ?c + 1\<rparr>"
  from ok have r: "?r < length (lines s)" and c: "?c \<le> length ?line"
    by (simp_all add: buffer_ok_def)
  have typed: "type_character c s = Inr ?s1"
    using r nl by (simp add: type_character_def Let_def)
  have "backspace ?s1 = Inr s"
    using r c by (simp add: backspace_def Let_def min_def)
  with typed show ?thesis by blast
qed

lemma typed_then_backspace:
  assumes ok: "buffer_ok s" and typed: "type_character c s = Inr s1"
  shows "backspace s1 = Inr s"
proof (cases "c = newline")
  case True
  with newline_then_backspace [OF ok] typed show ?thesis by auto
next
  case False
  with char_then_backspace [OF ok False] typed show ?thesis by auto
qed

lemma buffer_ok_text: "text_of t = text_of s \<Longrightarrow> buffer_ok t = buffer_ok s"
  by (simp add: text_of_def buffer_ok_def)

lemma type_string_ok:
  "buffer_ok s \<Longrightarrow> \<exists>s1. type_string cs s = Inr s1 \<and> buffer_ok s1"
proof (induction cs arbitrary: s)
  case Nil
  then show ?case by simp
next
  case (Cons c cs)
  from type_character_ok [OF Cons.prems, of c] obtain s1 where
    s1: "type_character c s = Inr s1" "buffer_ok s1" by blast
  from Cons.IH [OF s1(2)] s1(1) show ?case by simp
qed

lemma type_string_append:
  "type_string (a @ b) s =
     (case type_string a s of Inl e \<Rightarrow> Inl e | Inr s1 \<Rightarrow> type_string b s1)"
  by (induction a arbitrary: s) (simp_all split: sum.splits)

lemma type_each_text:
  "text_of t = text_of s \<Longrightarrow> type_string cs s = Inr s1 \<Longrightarrow>
   \<exists>t1. type_each cfg d cs t = Inr t1 \<and> text_of t1 = text_of s1"
proof (induction cs arbitrary: s t)
  case Nil
  then show ?case by simp
next
  case (Cons c cs)
  from Cons.prems(2) obtain sm where
    sm: "type_character c s = Inr sm" "type_string cs sm = Inr s1"
    by (auto split: sum.splits)
  from type_character_text [OF Cons.prems(1) sm(1)] obtain tm where
    tm: "type_character c t = Inr tm" "text_of tm = text_of sm" by blast
  have "text_of (add_frame cfg d tm) = text_of sm" using tm(2) by simp
  from Cons.IH [OF this sm(2)] tm(1) show ?case by simp
qed

lemma backspaces_undo:
  "buffer_ok s \<Longrightarrow> type_string cs s = Inr s1 \<Longrightarrow> text_of t = text_of s1 \<Longrightarrow>
   \<exists>t1. backspace_times cfg (length cs) t = Inr t1 \<and> text_of t1 = text_of s"
proof (induction cs arbitrary: s1 t rule: rev_induct)
  case Nil
  then show ?case by simp
next
  case (snoc c cs)
  from type_string_ok [OF snoc.prems(1), of cs] obtain sm where
    sm: "type_string cs s = Inr sm" "buffer_ok sm" by blast
  with snoc.prems(2) have last: "type_character c sm = Inr s1"
    by (simp add: type_string_append split: sum.splits)
  from typed_then_backspace [OF sm(2) last] have "backspace s1 = Inr sm" .
  from backspace_text [OF snoc.prems(3) this] obtain tm where
    tm: "backspace t = Inr tm" "text_of tm = text_of sm" by blast
  have "text_of (add_frame cfg (6 / 100) tm) = text_of sm" using tm(2) by simp
  from snoc.IH [OF snoc.prems(1) sm(1) this] tm(1) show ?case by simp
qed

lemma commonprefix_split:
  "\<exists>r1 r2. typo = commonprefix typo correct @ r1 \<and> correct = commonprefix typo correct @ r2"
  by (induction typo correct rule: commonprefix.induct) auto

lemma commonprefix_drop:
  "commonprefix typo correct @ drop (length (commonprefix typo correct)) typo = typo"
  "commonprefix typo correct @ drop (length (commonprefix typo correct)) correct = correct"
  "length (drop (length (commonprefix typo correct)) typo)
     = length typo - length (commonprefix typo correct)"
  using commonprefix_split [of typo correct] by (auto, metis append_eq_conv_conj, metis append_eq_conv_conj)

lemma type_string_plain:
  "buffer_ok s \<Longrightarrow> newline \<notin> set cs \<Longrightarrow>
   type_string cs s =
     Inr (s\<lparr>lines := (lines s)[cursor_row s :=
                 take (cursor_col s) (lines s ! cursor_row s) @ cs @
                 drop (cursor_col s) (lines s ! cursor_row s)],
            cursor_col := cursor_col s + length cs\<rparr>)"
proof (induction cs arbitrary: s)
  case Nil
  then show ?case by simp
next
  case (Cons c cs)
  let ?r = "cursor_row s" and ?c = "cursor_col s"
  let ?line = "lines s ! ?r"
  let ?s1 = "s\<lparr>lines := (lines s)[?r := take ?c ?line @ [c] @ drop ?c ?line],
               cursor_col := ?c + 1\<rparr>"
  from Cons.prems have r: "?r < length (lines s)" and c: "?c \<le> length ?line"
    and nl: "c \<noteq> newline" and rest: "newline \<notin> set cs"
    by (auto simp: buffer_ok_def)
  have typed: "type_character c s = Inr ?s1"
    using r nl by (simp add: type_character_def Let_def)
  have ok1: "buffer_ok ?s1"
    using type_character_ok [OF Cons.prems(1), of c] typed by simp
  have line1: "lines ?s1 ! cursor_row ?s1 = take ?c ?line @ [c] @ drop ?c ?line"
    using r by simp
  have "type_string cs ?s1 =
      Inr (?s1\<lparr>lines := (lines ?s1)[?r :=
                   take (?c + 1) (take ?c ?line @ [c] @ drop ?c ?line) @ cs @
                   drop (?c + 1) (take ?c ?line @ [c] @ drop ?c ?line)],
                cursor_col := ?c + 1 + length cs\<rparr>)"
    using Cons.IH [OF ok1 rest] line1 by simp
  then show ?case
    using typed c by (simp add: min_def)
qed

lemma type_special_sequence_text:
  assumes ok: "buffer_ok s"
  shows "\<exists>s1 s2. type_special_sequence cfg typo correct s = Inr s1 \<and>
                  type_string correct s = Inr s2 \<and> text_of s1 = text_of s2"
proof -
  let ?cp = "commonprefix typo correct"
  let ?r1 = "drop (length ?cp) typo" and ?r2 = "drop (length ?cp) correct"
  have typo: "typo = ?cp @ ?r1" and correct: "correct = ?cp @ ?r2"
    and len: "length ?r1 = length typo - length ?cp"
    by (simp_all add: commonprefix_drop)
  from type_string_ok [OF ok, of ?cp] obtain sp where
    sp: "type_string ?cp s = Inr sp" "buffer_ok sp" by blast
  from type_string_ok [OF sp(2), of ?r1] obtain st where
    st: "type_string ?r1 sp = Inr st" by blast
  from type_string_ok [OF sp(2), of ?r2] obtain s2 where
    s2: "type_string ?r2 sp = Inr s2" by blast
  have "type_string (?cp @ ?r1) s = Inr st"
    using sp(1) st by (simp add: type_string_append)
  then have whole: "type_string typo s = Inr st"
    using typo by simp
  have "type_string (?cp @ ?r2) s = Inr s2"
    using sp(1) s2 by (simp add: type_string_append)
  then have direct: "type_string correct s = Inr s2"
    using correct by simp
  from type_each_text [OF refl whole, of cfg "typing_speed_base cfg"] obtain t1 where
    t1: "type_each cfg (typing_speed_base cfg) typo s = Inr t1" "text_of t1 = text_of st"
    by blast
  have "text_of (add_frame cfg (correction_pause cfg) t1) = text_of st"
    using t1(2) by simp
  from backspaces_undo [OF sp(2) st this, of cfg] obtain t2 where
    t2: "backspace_times cfg (length ?r1) (add_frame cfg (correction_pause cfg) t1) = Inr t2"
      "text_of t2 = text_of sp"
    by blast
  from type_each_text [OF t2(2) s2, of cfg "typing_speed_base cfg"] obtain t3 where
    t3: "type_each cfg (typing_speed_base cfg) ?r2 t2 = Inr t3" "text_of t3 = text_of s2"
    by blast
  have "type_special_sequence cfg typo correct s = Inr t3"
    using t1(1) t2(1) t3(1) len by (simp add: type_special_sequence_def)
  with direct t3(2) show ?thesis by blast
qed

lemma find_special_startswith:
  "find_special seqs rest = Some (pattern, sq) \<Longrightarrow>
   startswith rest pattern \<and> (pattern, sq) \<in> set seqs"
  by (induction seqs) (auto split: if_splits)

lemma special_turn:
  assumes ok: "buffer_ok s"
    and found: "find_special (special_sequences cfg) (drop char_idx line) = Some (pattern, sq)"
    and tc: "(typo, correct) = (case sq of Pair_seq t c \<Rightarrow> (t, c) | Plain_seq t \<Rightarrow> (t, pattern))"
  shows "\<exists>s1 s2.
      type_text_special cfg line char_idx s = Some (Inr (s1, char_idx + length pattern)) \<and>
      type_string correct s = Inr s2 \<and>
      lines s1 = lines s2 \<and> cursor_row s1 = cursor_row s2 \<and> cursor_col s1 = cursor_col s2 \<and>
      (newline \<notin> set correct \<longrightarrow>
         lines s1 = (lines s)[cursor_row s :=
            take (cursor_col s) (lines s ! cursor_row s) @ correct @
            drop (cursor_col s) (lines s ! cursor_row s)] \<and>
         cursor_row s1 = cursor_row s \<and>
         cursor_col s1 = cursor_col s + length correct)"
proof -
  from type_special_sequence_text [OF ok, of cfg typo correct] obtain s1 s2 where
    seq: "type_special_sequence cfg typo correct s = Inr s1"
      "type_string correct s = Inr s2" "text_of s1 = text_of s2"
    by blast
  have turn: "type_text_special cfg line char_idx s = Some (Inr (s1, char_idx + length pattern))"
    using found tc seq(1)
    by (cases sq) (simp_all add: type_text_special_def)
  have same: "lines s1 = lines s2 \<and> cursor_row s1 = cursor_row s2 \<and> cursor_col s1 = cursor_col s2"
    using seq(3) by (simp add: text_of_def)
  have "newline \<notin> set correct \<longrightarrow>
         lines s1 = (lines s)[cursor_row s :=
            take (cursor_col s) (lines s ! cursor_row s) @ correct @
            drop (cursor_col s) (lines s ! cursor_row s)] \<and>
         cursor_row s1 = cursor_row s \<and>
         cursor_col s1 = cursor_col s + length correct"
  proof
    assume "newline \<notin> set correct"
    from type_string_plain [OF ok this] seq(2) same
    show "lines s1 = (lines s)[cursor_row s :=
            take (cursor_col s) (lines s ! cursor_row s) @ correct @
            drop (cursor_col s) (lines s ! cursor_row s)] \<and>
         cursor_row s1 = cursor_row s \<and>
         cursor_col s1 = cursor_col s + length correct"
      by auto
  qed
  with turn seq(2) same show ?thesis by blast
qed


lemma buffer_ok_typing: "buffer_ok typing_buffer"
  by (simp add: buffer_ok_def typing_buffer_def)

lemma no_newline_the: "newline \<notin> set ''the''"
  by (simp add: newline_def)

lemma found_teh:
  "find_special (special_sequences sample_config) (drop 6 ''I see teh cat'')
     = Some (''teh'', Pair_seq ''teh'' ''the'')"
  by (simp add: sample_config_def startswith_def)



lemma found_the:
  "find_special (special_sequences sample_config) (drop 6 ''I see the cat'')
     = Some (''the'', Plain_seq ''hte'')"
  by (simp add: sample_config_def startswith_def)


section \<open>Properties of highlighting\<close>

text \<open>A pattern occurs at a position of a line.\<close>

lemma occurrences_iff:
  "p \<in> set (occurrences line pattern) \<longleftrightarrow> p \<le> length line \<and> startswith (drop p line) pattern"
  by (simp add: occurrences_def less_Suc_eq_le del: upt_Suc)

lemma occurrences_Cons_Suc:
  "Suc p \<in> set (occurrences (x # xs) pattern) \<longleftrightarrow> p \<in> set (occurrences xs pattern)"
  by (simp add: occurrences_iff)

lemma occurrences_Cons_0:
  "0 \<in> set (occurrences (x # xs) pattern) \<longleftrightarrow> startswith (x # xs) pattern"
  by (simp add: occurrences_iff)

lemma occurrences_Nil: "p \<in> set (occurrences [] pattern) \<longleftrightarrow> p = 0 \<and> pattern = []"
  by (auto simp: occurrences_iff startswith_def)

lemma str_find_Some:
  "str_find line pattern = Some p \<Longrightarrow>
   p \<in> set (occurrences line pattern) \<and> (\<forall>q<p. q \<notin> set (occurrences line pattern))"
proof (induction line arbitrary: p)
  case Nil
  then show ?case by (simp add: occurrences_Nil split: if_splits)
next
  case (Cons x xs)
  show ?case
  proof (cases "startswith (x # xs) pattern")
    case True
    with Cons.prems show ?thesis by (simp add: occurrences_Cons_0)
  next
    case False
    with Cons.prems obtain p' where p': "str_find xs pattern = Some p'" "p = Suc p'"
      by auto
    from Cons.IH [OF p'(1)] have ih: "p' \<in> set (occurrences xs pattern)"
      "\<forall>q<p'. q \<notin> set (occurrences xs pattern)" by simp_all
    have "q \<notin> set (occurrences (x # xs) pattern)" if "q < p" for q
      using that False ih(2) p'(2)
      by (cases q) (simp_all add: occurrences_Cons_0 occurrences_Cons_Suc)
    with ih(1) p'(2) show ?thesis by (simp add: occurrences_Cons_Suc)
  qed
qed

lemma str_find_None: "str_find line pattern = None \<Longrightarrow> q \<notin> set (occurrences line pattern)"
proof (induction line arbitrary: q)
  case Nil
  then show ?case by (simp add: occurrences_Nil split: if_splits)
next
  case (Cons x xs)
  from Cons.prems have no: "\<not> startswith (x # xs) pattern" and rest: "str_find xs pattern = None"
    by (simp_all split: if_splits)
  show ?case
    using no Cons.IH [OF rest]
    by (cases q) (simp_all add: occurrences_Cons_0 occurrences_Cons_Suc)
qed

lemma str_find_once:
  assumes "occurrences line pattern = [p]"
  shows "str_find line pattern = Some p"
proof (cases "str_find line pattern")
  case None
  from str_find_None [OF None, of p] assms show ?thesis by simp
next
  case (Some p')
  from str_find_Some [OF Some] assms show ?thesis using Some by simp
qed



lemma todo_occurs_once: "occurrences ''fix TODO'' ''TODO'' = [4]"
  by code_simp


end
